theory Spec2Isabelle
  imports Main "HOL-Library.Word"
begin

section \<open>Bytes, C strings and the library functions HolaTokens.c calls\<close>

text \<open>
  A byte is a \<^typ>\<open>char\<close>. A C string is represented by the list of its bytes before the
  terminating NUL; a buffer that may hold NUL bytes in the middle (the line \<open>getline\<close>
  returns) is the list of all its bytes, and \<open>cstr\<close> is the C string that starts at its
  first byte.
\<close>

definition NUL :: char where
  "NUL = CHR 0x00"

definition newline :: char where
  "newline = CHR 0x0A"

definition space :: char where
  "space = CHR 0x20"

definition apostrophe :: char where
  "apostrophe = CHR 0x27"

definition cstr :: "string \<Rightarrow> string" where
  "cstr buf = takeWhile (\<lambda>c. c \<noteq> NUL) buf"

text \<open>\<open>isalpha\<close> and \<open>tolower\<close> of the "C" locale (the program never calls \<open>setlocale\<close>).\<close>

definition isupper :: "char \<Rightarrow> bool" where
  "isupper c = (65 \<le> (of_char c :: nat) \<and> (of_char c :: nat) \<le> 90)"

definition islower :: "char \<Rightarrow> bool" where
  "islower c = (97 \<le> (of_char c :: nat) \<and> (of_char c :: nat) \<le> 122)"

definition isalpha :: "char \<Rightarrow> bool" where
  "isalpha c = (isupper c \<or> islower c)"

definition tolower :: "char \<Rightarrow> char" where
  "tolower c = (if isupper c then char_of ((of_char c :: nat) + 32) else c)"

text \<open>
  \<open>strstr(haystack, needle)\<close>: the offset of the first occurrence of the needle, \<open>None\<close>
  for the null pointer.
\<close>

fun strstr :: "string \<Rightarrow> string \<Rightarrow> nat option" where
  "strstr [] needle = (if needle = [] then Some 0 else None)"
| "strstr (h # hs) needle =
     (if take (length needle) (h # hs) = needle then Some 0
      else map_option Suc (strstr hs needle))"

definition strcat :: "string \<Rightarrow> string \<Rightarrow> string" where
  "strcat dest src = dest @ src"

text \<open>\<open>strcmp\<close> compares bytes as unsigned values; only the sign of its result is specified.\<close>

fun strcmp :: "string \<Rightarrow> string \<Rightarrow> int" where
  "strcmp [] [] = 0"
| "strcmp [] (y # ys) = - 1"
| "strcmp (x # xs) [] = 1"
| "strcmp (x # xs) (y # ys) =
     (if x = y then strcmp xs ys
      else if (of_char x :: nat) < of_char y then - 1 else 1)"

text \<open>
  \<open>strtok_r\<close> with the delimiter string \<open>" "\<close>, on the C string at the saved position: skip
  the leading spaces, stop at the end of the string (null pointer), otherwise return the
  bytes up to the next space and the position after that space.
\<close>

definition strtok_r :: "string \<Rightarrow> (string \<times> string) option" where
  "strtok_r s =
     (let s1 = dropWhile (\<lambda>c. c = space) s
      in if s1 = [] then None
         else Some (takeWhile (\<lambda>c. c \<noteq> space) s1,
                    drop 1 (dropWhile (\<lambda>c. c \<noteq> space) s1)))"

text \<open>
  What a call of \<open>getline\<close> that behaves as POSIX describes delivers on the rest of
  standard input: \<open>None\<close> is the return value -1 at end of stream; otherwise the line with
  its newline (the last line may have none) and the rest of the stream.
\<close>

definition getline :: "string \<Rightarrow> (string \<times> string) option" where
  "getline stdin =
     (if stdin = [] then None
      else (case dropWhile (\<lambda>c. c \<noteq> newline) stdin of
              [] \<Rightarrow> Some (stdin, [])
            | n # rest \<Rightarrow> Some (takeWhile (\<lambda>c. c \<noteq> newline) stdin @ [n], rest)))"

text \<open>\<open>sprintf(line_number_text, " %d", line_number)\<close>.\<close>

definition digit :: "nat \<Rightarrow> char" where
  "digit d = char_of (48 + d)"

function decimal :: "nat \<Rightarrow> string" where
  "decimal n = (if n < 10 then [digit n] else decimal (n div 10) @ [digit (n mod 10)])"
  by pat_completeness auto
termination
  by (relation "measure id") auto

definition sprintf_d :: "int \<Rightarrow> string" where
  "sprintf_d i =
     space # (if i < 0 then CHR ''-'' # decimal (nat (- i)) else decimal (nat i))"

section \<open>The hash table of results\<close>

definition LONGEST_WORD_LEN :: nat where
  "LONGEST_WORD_LEN = 45"

definition LONGEST_LINE_SUMMARY_LEN :: nat where
  "LONGEST_LINE_SUMMARY_LEN = 16535"

text \<open>
  \<open>struct result_struct\<close>. The field \<open>word\<close> holds the bytes of the array \<open>word[45]\<close>
  before its first NUL: all 45 of them when the array holds no NUL. The field
  \<open>line_summary\<close> is the C string that starts at \<open>line_summary[0]\<close>. The two arrays are
  adjacent members of type \<open>char[]\<close>, so \<open>line_summary[0]\<close> is the byte after
  \<open>word[44]\<close>.
\<close>

record result_struct =
  key :: "32 word"
  word :: string
  line_summary :: string

text \<open>
  Modelled from the spec: the macros \<open>HASH_FIND_INT\<close> and \<open>HASH_ADD_INT\<close> of uthash.h,
  which is not among the sources. The table maps keys to items. The model keeps the
  items in a list, in the order they were added (the list \<open>hh.next\<close> walks), and names
  an item by its position. \<open>HASH_FIND_INT\<close> looks the key up and yields the item, or
  \<open>None\<close> for the null pointer; \<open>HASH_ADD_INT\<close> adds an item.
\<close>

fun HASH_FIND_INT :: "result_struct list \<Rightarrow> 32 word \<Rightarrow> nat option" where
  "HASH_FIND_INT [] k = None"
| "HASH_FIND_INT (r # rs) k =
     (if key r = k then Some 0 else map_option Suc (HASH_FIND_INT rs k))"

definition HASH_ADD_INT :: "result_struct list \<Rightarrow> result_struct \<Rightarrow> result_struct list" where
  "HASH_ADD_INT results s = results @ [s]"

text \<open>
  Modelled from the spec: the macro \<open>HASH_SORT\<close> of uthash.h, which is not among the
  sources. It orders the items by the comparison function, ascending; items that
  compare equal keep their order.
\<close>

fun sort_insert :: "('a \<Rightarrow> 'a \<Rightarrow> int) \<Rightarrow> 'a \<Rightarrow> 'a list \<Rightarrow> 'a list" where
  "sort_insert cmp x [] = [x]"
| "sort_insert cmp x (y # ys) =
     (if cmp y x \<le> 0 then y # sort_insert cmp x ys else x # y # ys)"

definition HASH_SORT :: "('a \<Rightarrow> 'a \<Rightarrow> int) \<Rightarrow> 'a list \<Rightarrow> 'a list" where
  "HASH_SORT cmp xs = foldl (\<lambda>sorted x. sort_insert cmp x sorted) [] xs"

text \<open>
  \<open>strcpy(s->word, name)\<close> stores the bytes of \<open>name\<close> and a NUL from \<open>word[0]\<close> on.
  \<open>spill\<close> is what it stores beyond \<open>word[44]\<close>, that is from \<open>line_summary[0]\<close> on.
\<close>

definition spill :: "string \<Rightarrow> string" where
  "spill name = drop LONGEST_WORD_LEN (name @ [NUL])"

definition strcpy_word :: "result_struct \<Rightarrow> string \<Rightarrow> result_struct" where
  "strcpy_word s name =
     s\<lparr>word := take LONGEST_WORD_LEN name,
       line_summary := (if spill name = [] then line_summary s else butlast (spill name))\<rparr>"

text \<open>\<open>s->word\<close> read as a C string, as \<open>printf\<close> and \<open>strcmp\<close> read it.\<close>

definition word_str :: "result_struct \<Rightarrow> string" where
  "word_str s = (if length (word s) < LONGEST_WORD_LEN then word s else word s @ line_summary s)"

text \<open>
  The part of \<open>add_result\<close> that works on the item \<open>s\<close> points to: set the word,
  then append the line number unless the summary is too long or holds it already.
\<close>

definition update_entry :: "result_struct \<Rightarrow> string \<Rightarrow> string \<Rightarrow> result_struct" where
  "update_entry s name line_number =
     (let s1 = strcpy_word s name;
          len = length (line_summary s1)
      in if len < LONGEST_LINE_SUMMARY_LEN - 16
         then (if strstr (line_summary s1) line_number = None
               then s1\<lparr>line_summary := strcat (line_summary s1) line_number\<rparr>
               else s1)
         else s1)"

text \<open>
  \<open>add_result\<close>. \<open>malloc n\<close> is the block the \<open>n\<close>-th call of \<open>malloc\<close> returns (no item is
  ever freed, so \<open>n\<close> is the number of items): C leaves its contents indeterminate, and
  the function sets its \<open>key\<close> only.
\<close>

definition add_result ::
  "(nat \<Rightarrow> result_struct) \<Rightarrow> result_struct list \<Rightarrow> 32 word \<Rightarrow> string \<Rightarrow> string
     \<Rightarrow> result_struct list" where
  "add_result malloc results k name line_number =
     (if length name > LONGEST_WORD_LEN then results
      else
        let (results1, i) =
              (case HASH_FIND_INT results k of
                 None \<Rightarrow> (HASH_ADD_INT results ((malloc (length results))\<lparr>key := k\<rparr>),
                          length results)
               | Some i \<Rightarrow> (results, i))
        in results1[i := update_entry (results1 ! i) name line_number])"

text \<open>
  \<open>hash\<close>: \<open>unsigned int\<close> arithmetic wraps modulo \<open>2^32\<close>; \<open>word[i]\<close> is a (signed)
  \<open>char\<close>, converted to \<open>unsigned int\<close>.
\<close>

definition char_val :: "char \<Rightarrow> 32 word" where
  "char_val c = (if (of_char c :: nat) < 128 then of_nat (of_char c) else of_nat (of_char c) - 256)"

definition hash :: "string \<Rightarrow> 32 word" where
  "hash w = foldl (\<lambda>h c. 31 * h + char_val c) 0 w"

text \<open>\<open>printf("%s%s\\n", s->word, s->line_summary)\<close>, and the loop of \<open>print_results\<close>.\<close>

definition report_line :: "result_struct \<Rightarrow> string" where
  "report_line s = word_str s @ line_summary s @ [newline]"

definition print_results :: "result_struct list \<Rightarrow> string" where
  "print_results results = concat (map report_line results)"

definition name_sort :: "result_struct \<Rightarrow> result_struct \<Rightarrow> int" where
  "name_sort a b = strcmp (word_str a) (word_str b)"

definition sort_by_name :: "result_struct list \<Rightarrow> result_struct list" where
  "sort_by_name results = HASH_SORT name_sort results"

section \<open>main\<close>

text \<open>
  Standard output is the list of the bytes printed. \<open>malloc\<close> is taken to succeed. The
  variables of \<open>main\<close> that are \<open>int\<close> are words of 32 bits.

  The scan of the incoming line, in place, up to its first NUL:
\<close>

definition scan_char :: "char \<Rightarrow> char" where
  "scan_char c =
     (if \<not> isalpha c \<and> c \<noteq> apostrophe then space
      else if isalpha c then tolower c else c)"

fun scan_line :: "string \<Rightarrow> string" where
  "scan_line [] = []"
| "scan_line (c # cs) = (if c = NUL then c # cs else scan_char c # scan_line cs)"

lemma strtok_r_shorter: "strtok_r s = Some (token, rest) \<Longrightarrow> length rest < length s"
proof -
  assume a: "strtok_r s = Some (token, rest)"
  define s1 where "s1 = dropWhile (\<lambda>c. c = space) s"
  define s2 where "s2 = dropWhile (\<lambda>c. c \<noteq> space) s1"
  from a have ne: "s1 \<noteq> []" and r: "rest = drop 1 s2"
    by (auto simp: strtok_r_def s1_def s2_def Let_def split: if_splits)
  have l2: "length s2 \<le> length s1"
    unfolding s2_def by (rule length_dropWhile_le)
  have l1: "length s1 \<le> length s"
    unfolding s1_def by (rule length_dropWhile_le)
  from ne have pos: "0 < length s1" by simp
  have "length rest = length s2 - 1" using r by simp
  with l2 pos have "length rest < length s1" by arith
  with l1 show ?thesis by arith
qed

lemma getline_shorter: "getline stdin = Some (line, rest) \<Longrightarrow> length rest < length stdin"
proof -
  assume a: "getline stdin = Some (line, rest)"
  have le: "length (dropWhile (\<lambda>c. c \<noteq> newline) stdin) \<le> length stdin"
    by (rule length_dropWhile_le)
  from a le show ?thesis
    by (auto simp: getline_def split: if_splits list.splits)
qed

text \<open>
  The body of the loop over the tokens: hash the token, render the line number with
  \<open>" %d"\<close>, add to the table. The specification calls it \<open>upsert\<close>.
\<close>

definition upsert ::
  "(nat \<Rightarrow> result_struct) \<Rightarrow> result_struct list \<Rightarrow> 32 word \<Rightarrow> string \<Rightarrow> result_struct list" where
  "upsert malloc results line_number token =
     add_result malloc results (hash token) token (sprintf_d (sint line_number))"

text \<open>The loop over the tokens of one line.\<close>

function token_loop ::
  "(nat \<Rightarrow> result_struct) \<Rightarrow> result_struct list \<Rightarrow> 32 word \<Rightarrow> string \<Rightarrow> result_struct list" where
  "token_loop malloc results line_number s =
     (case strtok_r s of
        None \<Rightarrow> results
      | Some (token, rest) \<Rightarrow>
          token_loop malloc (upsert malloc results line_number token) line_number rest)"
  by pat_completeness auto
termination
  by (relation "measure (\<lambda>(m, r, l, s). length s)") (auto dest: strtok_r_shorter)

text \<open>
  The call \<open>getline(&test_line, &read_byte_request, stdin)\<close> is not one whose result the
  language fixes: \<open>test_line\<close> is passed uninitialised, and \<open>&read_byte_request\<close> is the
  address of an \<open>int\<close> where \<open>getline\<close> reads and writes a \<open>size_t\<close>, so that on a platform
  whose \<open>size_t\<close> is wider than \<open>int\<close> the call reaches the neighbours of
  \<open>read_byte_request\<close> in the frame of \<open>main\<close>. What a call leaves behind is therefore a
  parameter of the model, one record for each call that returns, with what the loop reads
  after it: the value assigned to \<open>read_byte_actual\<close> (the \<open>ssize_t\<close> returned, converted to
  \<open>int\<close>), the bytes \<open>test_line\<close> then points to, and the value of \<open>line_number\<close> where the
  call has written over it (\<open>None\<close> where it has not). The array \<open>delimitors\<close> is taken to
  stay as it is. A call that does not return ends the program before anything is
  printed: \<open>main\<close> below is the output of a run in which every call returns.
\<close>

record getline_call =
  read_byte_actual :: "32 word"
  test_line :: string
  line_number_written :: "32 word option"

text \<open>
  The loop over the lines, on the calls of \<open>getline\<close> in order. The loop ends at the first
  call that returns -1 (a list that holds no such call is a run up to its last call);
  a line is tokenised when \<open>read_byte_actual > 0\<close>. The increment \<open>++line_number\<close> comes
  before the call and wraps here as the machine's does (C leaves the overflow of an
  \<open>int\<close> undefined); the marker \<open>sprintf\<close> prints is the signed reading of the counter.
\<close>

fun main_loop ::
  "(nat \<Rightarrow> result_struct) \<Rightarrow> result_struct list \<Rightarrow> 32 word \<Rightarrow> getline_call list
     \<Rightarrow> result_struct list" where
  "main_loop malloc results line_number [] = results"
| "main_loop malloc results line_number (c # calls) =
     (let line_number1 = (case line_number_written c of
                            None \<Rightarrow> line_number + 1
                          | Some v \<Rightarrow> v)
      in if read_byte_actual c = - 1 then results
         else if 0 < sint (read_byte_actual c)
           then main_loop malloc
                  (token_loop malloc results line_number1 (cstr (scan_line (test_line c))))
                  line_number1 calls
           else main_loop malloc results line_number1 calls)"

definition main :: "(nat \<Rightarrow> result_struct) \<Rightarrow> getline_call list \<Rightarrow> string" where
  "main malloc calls = print_results (sort_by_name (main_loop malloc [] 0 calls))"

text \<open>
  The calls of a \<open>getline\<close> that behaves as POSIX describes, on standard input as the list
  of its bytes: each call delivers the next line and writes nothing but its own
  arguments; the call at the end of the stream returns -1. The length of the line is an
  \<open>ssize_t\<close> that the assignment to \<open>read_byte_actual\<close> cuts down to 32 bits.
\<close>

function conforming :: "string \<Rightarrow> getline_call list" where
  "conforming stdin =
     (case getline stdin of
        None \<Rightarrow> [\<lparr>read_byte_actual = - 1, test_line = [], line_number_written = None\<rparr>]
      | Some (line, rest) \<Rightarrow>
          \<lparr>read_byte_actual = of_nat (length line), test_line = line,
           line_number_written = None\<rparr> # conforming rest)"
  by pat_completeness auto
termination
  by (relation "measure length") (auto dest: getline_shorter)

declare decimal.simps [simp del] token_loop.simps [simp del] conforming.simps [simp del]

text \<open>A block of zero bytes, as \<open>malloc\<close> returns it from a fresh page of the heap.\<close>

definition zero_block :: "nat \<Rightarrow> result_struct" where
  "zero_block n = \<lparr>key = 0, word = [], line_summary = []\<rparr>"

text \<open>
  A block that still holds bytes of an earlier use, as \<open>malloc\<close> may return it: the C
  string \<open>" 9"\<close> where \<open>line_summary\<close> comes to lie.
\<close>

definition used_block :: "nat \<Rightarrow> result_struct" where
  "used_block n = \<lparr>key = 0, word = [], line_summary = '' 9''\<rparr>"

text \<open>A sequence of upserts, each a line number and a token, in order.\<close>

definition upserts ::
  "(nat \<Rightarrow> result_struct) \<Rightarrow> result_struct list \<Rightarrow> (32 word \<times> string) list
     \<Rightarrow> result_struct list" where
  "upserts malloc results ops = foldl (\<lambda>rs (l, t). upsert malloc rs l t) results ops"

text \<open>
  The tokens \<open>strtok_r\<close> yields from a scanned line, and the upserts the loops of \<open>main\<close>
  perform: each token with the number of its line, in order.
\<close>

function tokens :: "string \<Rightarrow> string list" where
  "tokens s = (case strtok_r s of None \<Rightarrow> [] | Some (token, rest) \<Rightarrow> token # tokens rest)"
  by pat_completeness auto
termination
  by (relation "measure length") (auto dest: strtok_r_shorter)

fun occurrences :: "32 word \<Rightarrow> getline_call list \<Rightarrow> (32 word \<times> string) list" where
  "occurrences line_number [] = []"
| "occurrences line_number (c # calls) =
     (let line_number1 = (case line_number_written c of
                            None \<Rightarrow> line_number + 1
                          | Some v \<Rightarrow> v)
      in if read_byte_actual c = - 1 then []
         else if 0 < sint (read_byte_actual c)
           then map (Pair line_number1) (tokens (cstr (scan_line (test_line c))))
                @ occurrences line_number1 calls
           else occurrences line_number1 calls)"

declare tokens.simps [simp del]


text \<open>The markers of the lines 1 to \<open>n\<close>, as \<open>add_result\<close> appends them one after the other.\<close>

definition markers :: "nat \<Rightarrow> string" where
  "markers n = concat (map (\<lambda>k. sprintf_d (int k)) [1..<Suc n])"

section \<open>The specification's normalizer and its tokens\<close>

text \<open>The bytes a token is made of: alphabetic characters and the apostrophe.\<close>

definition run_char :: "char \<Rightarrow> bool" where
  "run_char c = (isalpha c \<or> c = apostrophe)"


text \<open>
  The normalizer as the specification words it, byte by byte: an alphabetic byte (A-Z,
  a-z) becomes its lowercase form, the apostrophe passes through, every other byte
  becomes a space.
\<close>

definition spec_byte :: "char \<Rightarrow> char" where
  "spec_byte c =
     (case map_of (zip ''ABCDEFGHIJKLMNOPQRSTUVWXYZ'' ''abcdefghijklmnopqrstuvwxyz'') c of
        Some l \<Rightarrow> l
      | None \<Rightarrow>
          if c \<in> set ''abcdefghijklmnopqrstuvwxyz'' then c
          else if c = apostrophe then c
          else space)"

definition spec_normalize :: "string \<Rightarrow> string" where
  "spec_normalize line = map spec_byte line"

section \<open>Facts about the library functions and the table\<close>

lemma spill_short: "length name < LONGEST_WORD_LEN \<Longrightarrow> spill name = []"
  by (simp add: spill_def)

lemma spill_exact: "length name = LONGEST_WORD_LEN \<Longrightarrow> spill name = [NUL]"
  by (simp add: spill_def)

lemma strcpy_word_short:
  "length name < LONGEST_WORD_LEN \<Longrightarrow> strcpy_word s name = s\<lparr>word := name\<rparr>"
  by (simp add: strcpy_word_def spill_short)

lemma strcpy_word_exact:
  "length name = LONGEST_WORD_LEN \<Longrightarrow> strcpy_word s name = s\<lparr>word := name, line_summary := []\<rparr>"
  by (simp add: strcpy_word_def spill_exact)

lemma key_strcpy_word [simp]: "key (strcpy_word s name) = key s"
  by (simp add: strcpy_word_def)

lemma strcpy_word_idem: "strcpy_word (strcpy_word s name) name = strcpy_word s name"
  by (simp add: strcpy_word_def)

lemma strstr_iff: "strstr h n \<noteq> None \<longleftrightarrow> (\<exists>a b. h = a @ n @ b)"
proof (induction h)
  case Nil
  then show ?case by simp
next
  case (Cons x hs)
  show ?case
  proof (cases "take (length n) (x # hs) = n")
    case True
    then have "x # hs = [] @ n @ drop (length n) (x # hs)"
      by (metis append_Nil append_take_drop_id)
    then have "\<exists>a b. x # hs = a @ n @ b" by blast
    with True show ?thesis by simp
  next
    case False
    have "(\<exists>a b. x # hs = a @ n @ b) \<longleftrightarrow> (\<exists>a b. hs = a @ n @ b)"
    proof
      assume "\<exists>a b. x # hs = a @ n @ b"
      then obtain a b where ab: "x # hs = a @ n @ b" by blast
      have "a \<noteq> []"
      proof
        assume "a = []"
        with ab have "take (length n) (x # hs) = n" by simp
        with False show False by simp
      qed
      then obtain a' where "a = x # a'" using ab by (cases a) auto
      with ab have "hs = a' @ n @ b" by simp
      then show "\<exists>a b. hs = a @ n @ b" by blast
    next
      assume "\<exists>a b. hs = a @ n @ b"
      then obtain a b where "hs = a @ n @ b" by blast
      then have "x # hs = (x # a) @ n @ b" by simp
      then show "\<exists>a b. x # hs = a @ n @ b" by blast
    qed
    with False Cons.IH show ?thesis by simp
  qed
qed

lemma strstr_append_self: "strstr (a @ m) m \<noteq> None"
proof -
  have "a @ m = a @ m @ []" by simp
  then show ?thesis unfolding strstr_iff by blast
qed

lemma key_update_entry [simp]: "key (update_entry s name ln) = key s"
  by (simp add: update_entry_def Let_def)

lemma word_update_entry [simp]: "word (update_entry s name ln) = take LONGEST_WORD_LEN name"
  by (simp add: update_entry_def Let_def strcpy_word_def)

lemma update_entry_idem:
  "update_entry (update_entry s name ln) name ln = update_entry s name ln"
proof -
  define s1 where "s1 = strcpy_word s name"
  have i: "strcpy_word s1 name = s1" unfolding s1_def by (rule strcpy_word_idem)
  show ?thesis
  proof (cases "spill name = []")
    case True
    then have keep: "\<And>t. line_summary (strcpy_word t name) = line_summary t"
      by (simp add: strcpy_word_def)
    have w: "\<And>t x. strcpy_word (t\<lparr>line_summary := x\<rparr>) name = (strcpy_word t name)\<lparr>line_summary := x\<rparr>"
      using True by (simp add: strcpy_word_def)
    show ?thesis
      using strstr_append_self[of "line_summary s1" ln]
      by (auto simp: update_entry_def Let_def s1_def[symmetric] i w strcat_def)
  next
    case False
    then have w: "\<And>t. strcpy_word t name = t\<lparr>word := take LONGEST_WORD_LEN name, line_summary := butlast (spill name)\<rparr>"
      by (simp add: strcpy_word_def)
    show ?thesis
      by (simp add: update_entry_def Let_def w)
  qed
qed

lemma HASH_FIND_INT_None: "HASH_FIND_INT rs k = None \<longleftrightarrow> k \<notin> key ` set rs"
  by (induction rs) auto

lemma HASH_FIND_INT_Some:
  "HASH_FIND_INT rs k = Some i \<Longrightarrow> i < length rs \<and> key (rs ! i) = k"
  by (induction rs arbitrary: i) (auto split: if_splits)

lemma HASH_FIND_INT_update:
  "HASH_FIND_INT rs k = Some i \<Longrightarrow> key s = k \<Longrightarrow> HASH_FIND_INT (rs[i := s]) k = Some i"
  by (induction rs arbitrary: i) (auto split: if_splits)

lemma HASH_FIND_INT_append:
  "HASH_FIND_INT rs k = None \<Longrightarrow> key s = k \<Longrightarrow> HASH_FIND_INT (rs @ [s]) k = Some (length rs)"
  by (induction rs) (auto split: if_splits)

lemma add_result_long:
  "length name > LONGEST_WORD_LEN \<Longrightarrow> add_result malloc results k name ln = results"
  by (simp add: add_result_def)

lemma add_result_found:
  "\<not> length name > LONGEST_WORD_LEN \<Longrightarrow> HASH_FIND_INT results k = Some i \<Longrightarrow>
   add_result malloc results k name ln = results[i := update_entry (results ! i) name ln]"
  by (simp add: add_result_def)

lemma add_result_new:
  "\<not> length name > LONGEST_WORD_LEN \<Longrightarrow> HASH_FIND_INT results k = None \<Longrightarrow>
   add_result malloc results k name ln =
     results @ [update_entry ((malloc (length results))\<lparr>key := k\<rparr>) name ln]"
  by (simp add: add_result_def HASH_ADD_INT_def)

lemma add_result_idem:
  "add_result malloc (add_result malloc results k name ln) k name ln =
   add_result malloc results k name ln"
proof (cases "length name > LONGEST_WORD_LEN")
  case True
  then show ?thesis by (simp add: add_result_long)
next
  case False
  show ?thesis
  proof (cases "HASH_FIND_INT results k")
    case None
    define e where "e = update_entry ((malloc (length results))\<lparr>key := k\<rparr>) name ln"
    have k: "key e = k" by (simp add: e_def)
    have 1: "add_result malloc results k name ln = results @ [e]"
      unfolding e_def using False None by (rule add_result_new)
    have 2: "HASH_FIND_INT (results @ [e]) k = Some (length results)"
      using None k by (rule HASH_FIND_INT_append)
    have "add_result malloc (results @ [e]) k name ln =
          (results @ [e])[length results := update_entry ((results @ [e]) ! length results) name ln]"
      using False 2 by (rule add_result_found)
    also have "\<dots> = results @ [update_entry e name ln]" by simp
    also have "update_entry e name ln = e" unfolding e_def by (rule update_entry_idem)
    finally show ?thesis by (simp add: 1)
  next
    case (Some i)
    define e where "e = update_entry (results ! i) name ln"
    from Some have i: "i < length results" and ki: "key (results ! i) = k"
      by (auto dest: HASH_FIND_INT_Some)
    have k: "key e = k" by (simp add: e_def ki)
    have 1: "add_result malloc results k name ln = results[i := e]"
      unfolding e_def using False Some by (rule add_result_found)
    have 2: "HASH_FIND_INT (results[i := e]) k = Some i"
      using Some k by (rule HASH_FIND_INT_update)
    have "add_result malloc (results[i := e]) k name ln =
          (results[i := e])[i := update_entry ((results[i := e]) ! i) name ln]"
      using False 2 by (rule add_result_found)
    also have "\<dots> = results[i := update_entry e name ln]" using i by simp
    also have "update_entry e name ln = e" unfolding e_def by (rule update_entry_idem)
    finally show ?thesis by (simp add: 1)
  qed
qed

section \<open>The order of the report\<close>

lemma strcmp_neg: "strcmp b a = - strcmp a b"
  by (induction a b rule: strcmp.induct) auto

lemma strcmp_trans: "strcmp a b \<le> 0 \<Longrightarrow> strcmp b c \<le> 0 \<Longrightarrow> strcmp a c \<le> 0"
proof (induction a arbitrary: b c)
  case Nil
  then show ?case by (cases c) auto
next
  case (Cons x xs)
  from Cons.prems obtain y ys where b: "b = y # ys" by (cases b) auto
  from Cons.prems b obtain z zs where c: "c = z # zs" by (cases c) (auto split: if_splits)
  show ?case
  proof (cases "x = y")
    case xy: True
    show ?thesis
    proof (cases "y = z")
      case True
      with xy Cons.prems b c have "strcmp xs ys \<le> 0" "strcmp ys zs \<le> 0" by auto
      then have "strcmp xs zs \<le> 0" by (rule Cons.IH)
      with xy True b c show ?thesis by simp
    next
      case False
      with xy Cons.prems b c show ?thesis by (auto split: if_splits)
    qed
  next
    case xy: False
    with Cons.prems b have lt: "(of_char x :: nat) < of_char y" by (auto split: if_splits)
    show ?thesis
    proof (cases "y = z")
      case True
      with xy lt b c show ?thesis by auto
    next
      case False
      with Cons.prems b c have "(of_char y :: nat) < of_char z" by (auto split: if_splits)
      with lt have "(of_char x :: nat) < of_char z" by simp
      then show ?thesis using b c by auto
    qed
  qed
qed

lemma strcmp_take: "strcmp u v \<le> 0 \<Longrightarrow> strcmp (take n u) (take n v) \<le> 0"
proof (induction n arbitrary: u v)
  case 0
  then show ?case by simp
next
  case (Suc n)
  show ?case
  proof (cases u)
    case Nil
    then show ?thesis by (cases v) auto
  next
    case (Cons x xs)
    with Suc.prems obtain y ys where v: "v = y # ys" by (cases v) auto
    show ?thesis using Suc.prems Suc.IH[of xs ys] Cons v by (auto split: if_splits)
  qed
qed

lemma set_sort_insert: "set (sort_insert cmp x xs) = insert x (set xs)"
  by (induction xs) auto

lemma length_sort_insert: "length (sort_insert cmp x xs) = Suc (length xs)"
  by (induction xs) auto

lemma sorted_sort_insert:
  assumes total: "\<And>a b. \<not> cmp a b \<le> 0 \<Longrightarrow> cmp b a \<le> 0"
    and trans: "\<And>a b c. cmp a b \<le> 0 \<Longrightarrow> cmp b c \<le> 0 \<Longrightarrow> cmp a c \<le> 0"
  shows "sorted_wrt (\<lambda>a b. cmp a b \<le> (0::int)) xs \<Longrightarrow>
         sorted_wrt (\<lambda>a b. cmp a b \<le> 0) (sort_insert cmp x xs)"
proof (induction xs)
  case Nil
  then show ?case by simp
next
  case (Cons y ys)
  show ?case
  proof (cases "cmp y x \<le> 0")
    case True
    with Cons show ?thesis by (auto simp: set_sort_insert)
  next
    case False
    then have xy: "cmp x y \<le> 0" by (rule total)
    have "\<forall>z\<in>set ys. cmp x z \<le> 0"
    proof
      fix z assume "z \<in> set ys"
      with Cons.prems have "cmp y z \<le> 0" by simp
      with xy show "cmp x z \<le> 0" by (rule trans)
    qed
    with False xy Cons.prems show ?thesis by simp
  qed
qed

lemma HASH_SORT_sorted_aux:
  assumes total: "\<And>a b. \<not> cmp a b \<le> 0 \<Longrightarrow> cmp b a \<le> 0"
    and trans: "\<And>a b c. cmp a b \<le> 0 \<Longrightarrow> cmp b c \<le> 0 \<Longrightarrow> cmp a c \<le> 0"
  shows "sorted_wrt (\<lambda>a b. cmp a b \<le> (0::int)) acc \<Longrightarrow>
         sorted_wrt (\<lambda>a b. cmp a b \<le> 0) (foldl (\<lambda>sorted x. sort_insert cmp x sorted) acc xs)"
proof (induction xs arbitrary: acc)
  case Nil
  then show ?case by simp
next
  case (Cons x xs)
  have "sorted_wrt (\<lambda>a b. cmp a b \<le> 0) (sort_insert cmp x acc)"
    using total trans Cons.prems by (rule sorted_sort_insert)
  then show ?case using Cons.IH by simp
qed

lemma HASH_SORT_set_aux:
  "set (foldl (\<lambda>sorted x. sort_insert cmp x sorted) acc xs) = set acc \<union> set xs"
  by (induction xs arbitrary: acc) (auto simp: set_sort_insert)

lemma HASH_SORT_length_aux:
  "length (foldl (\<lambda>sorted x. sort_insert cmp x sorted) acc xs) = length acc + length xs"
  by (induction xs arbitrary: acc) (auto simp: length_sort_insert)

lemma name_sort_total: "\<not> name_sort a b \<le> 0 \<Longrightarrow> name_sort b a \<le> 0"
  unfolding name_sort_def using strcmp_neg[of "word_str b" "word_str a"] by simp

lemma name_sort_trans: "name_sort a b \<le> 0 \<Longrightarrow> name_sort b c \<le> 0 \<Longrightarrow> name_sort a c \<le> 0"
  unfolding name_sort_def by (rule strcmp_trans)

lemma sort_by_name_sorted:
  "sorted_wrt (\<lambda>a b. name_sort a b \<le> 0) (sort_by_name results)"
  unfolding sort_by_name_def HASH_SORT_def
  by (rule HASH_SORT_sorted_aux[OF name_sort_total name_sort_trans]) simp_all

lemma set_sort_by_name: "set (sort_by_name results) = set results"
  by (simp add: sort_by_name_def HASH_SORT_def HASH_SORT_set_aux)

lemma length_sort_by_name: "length (sort_by_name results) = length results"
  by (simp add: sort_by_name_def HASH_SORT_def HASH_SORT_length_aux)

lemma token_loop_invariant:
  "(\<And>rs l t. P rs \<Longrightarrow> P (upsert malloc rs l t)) \<Longrightarrow> P results \<Longrightarrow>
   P (token_loop malloc results line_number s)"
proof (induction malloc results line_number s rule: token_loop.induct)
  case (1 malloc results line_number s)
  note step = "1.prems"(1)
  show ?case
  proof (cases "strtok_r s")
    case None
    then show ?thesis
      using "1.prems"(2) by (simp add: token_loop.simps[of malloc results line_number s])
  next
    case (Some p)
    obtain token rest where p: "p = (token, rest)" by (cases p)
    have "P (upsert malloc results line_number token)" using "1.prems"(2) by (rule step)
    then have "P (token_loop malloc (upsert malloc results line_number token) line_number rest)"
      using "1.IH" Some p step by blast
    then show ?thesis
      using Some p by (simp add: token_loop.simps[of malloc results line_number s])
  qed
qed

lemma main_loop_invariant:
  "(\<And>rs l t. P rs \<Longrightarrow> P (upsert malloc rs l t)) \<Longrightarrow> P results \<Longrightarrow>
   P (main_loop malloc results line_number calls)"
proof (induction calls arbitrary: results line_number)
  case Nil
  then show ?case by simp
next
  case (Cons c calls)
  note step = Cons.prems(1)
  have t: "P (token_loop malloc results l (cstr (scan_line (test_line c))))" for l
    using step Cons.prems(2) by (rule token_loop_invariant)
  have 1: "P (main_loop malloc (token_loop malloc results l (cstr (scan_line (test_line c)))) l calls)"
    for l
    using step t by (rule Cons.IH)
  have 2: "P (main_loop malloc results l calls)" for l
    using step Cons.prems(2) by (rule Cons.IH)
  show ?case using 1 2 Cons.prems(2) by (simp add: Let_def)
qed

lemma length_word_update_entry:
  "length (word (update_entry s name ln)) \<le> LONGEST_WORD_LEN"
  by (simp add: update_entry_def Let_def strcpy_word_def)

section \<open>The scan of a line against the specification's normalizer\<close>

lemma upper_chars: "map char_of [65..<91::nat] = ''ABCDEFGHIJKLMNOPQRSTUVWXYZ''"
  by (simp add: upt_rec char_of_eq_iff)

lemma lower_chars: "map char_of [97..<123::nat] = ''abcdefghijklmnopqrstuvwxyz''"
  by (simp add: upt_rec char_of_eq_iff)

lemma char_in_range:
  assumes "b \<le> 256"
  shows "(a \<le> (of_char c :: nat) \<and> (of_char c :: nat) < b) \<longleftrightarrow> c \<in> set (map char_of [a..<b])"
proof
  assume "a \<le> (of_char c :: nat) \<and> (of_char c :: nat) < b"
  then have "(of_char c :: nat) \<in> {a..<b}" by simp
  then have "char_of (of_char c :: nat) \<in> char_of ` {a..<b}" by (rule imageI)
  then show "c \<in> set (map char_of [a..<b])" by (simp only: char_of_char set_map set_upt)
next
  assume "c \<in> set (map char_of [a..<b])"
  then obtain n where n: "n \<in> {a..<b}" and e: "c = char_of n" by (auto simp only: set_map set_upt)
  from n assms have "n < 256" by simp
  then have "(of_char c :: nat) = n" by (simp add: e)
  with n show "a \<le> (of_char c :: nat) \<and> (of_char c :: nat) < b" by simp
qed

lemma isupper_iff: "isupper c \<longleftrightarrow> c \<in> set ''ABCDEFGHIJKLMNOPQRSTUVWXYZ''"
proof -
  have "isupper c \<longleftrightarrow> (65 \<le> (of_char c :: nat) \<and> (of_char c :: nat) < 91)"
    unfolding isupper_def by arith
  also have "\<dots> \<longleftrightarrow> c \<in> set (map char_of [65..<91::nat])"
    by (rule char_in_range) simp
  finally show ?thesis by (simp only: upper_chars)
qed

lemma islower_iff: "islower c \<longleftrightarrow> c \<in> set ''abcdefghijklmnopqrstuvwxyz''"
proof -
  have "islower c \<longleftrightarrow> (97 \<le> (of_char c :: nat) \<and> (of_char c :: nat) < 123)"
    unfolding islower_def by arith
  also have "\<dots> \<longleftrightarrow> c \<in> set (map char_of [97..<123::nat])"
    by (rule char_in_range) simp
  finally show ?thesis by (simp only: lower_chars)
qed

lemma char_eq_char_of: "c = char_of n \<longleftrightarrow> take_bit 8 n = of_char c"
  using char_of_eq_iff[of n c] by auto

lemma tolower_upper_all:
  "\<forall>c\<in>set ''ABCDEFGHIJKLMNOPQRSTUVWXYZ''.
   map_of (zip ''ABCDEFGHIJKLMNOPQRSTUVWXYZ'' ''abcdefghijklmnopqrstuvwxyz'') c = Some (char_of ((of_char c :: nat) + 32))"
  by (simp add: char_eq_char_of)

lemma not_upper_map_of:
  "c \<notin> set ''ABCDEFGHIJKLMNOPQRSTUVWXYZ'' \<Longrightarrow>
   map_of (zip ''ABCDEFGHIJKLMNOPQRSTUVWXYZ'' ''abcdefghijklmnopqrstuvwxyz'') c = None"
  by (simp only: map_of_eq_None_iff map_fst_zip length_Cons list.size) simp

lemma scan_char_spec: "scan_char c = spec_byte c"
proof (cases "isupper c")
  case True
  then have m: "c \<in> set ''ABCDEFGHIJKLMNOPQRSTUVWXYZ''" unfolding isupper_iff .
  have e: "map_of (zip ''ABCDEFGHIJKLMNOPQRSTUVWXYZ'' ''abcdefghijklmnopqrstuvwxyz'') c = Some (char_of ((of_char c :: nat) + 32))"
    using tolower_upper_all m by (rule bspec)
  have "scan_char c = char_of ((of_char c :: nat) + 32)"
    using True by (simp add: scan_char_def isalpha_def tolower_def)
  moreover have "spec_byte c = char_of ((of_char c :: nat) + 32)"
    unfolding spec_byte_def e by simp
  ultimately show ?thesis by simp
next
  case False
  then have m: "c \<notin> set ''ABCDEFGHIJKLMNOPQRSTUVWXYZ''" unfolding isupper_iff .
  have e: "map_of (zip ''ABCDEFGHIJKLMNOPQRSTUVWXYZ'' ''abcdefghijklmnopqrstuvwxyz'') c = None"
    using m by (rule not_upper_map_of)
  from False have t: "tolower c = c" by (simp add: tolower_def)
  from False have a: "isalpha c = islower c" by (simp add: isalpha_def)
  have "scan_char c = (if islower c then c else if c = apostrophe then c else space)"
    unfolding scan_char_def t a by simp
  moreover have "spec_byte c = (if islower c then c else if c = apostrophe then c else space)"
    unfolding spec_byte_def e islower_iff by simp
  ultimately show ?thesis by simp
qed

lemma scan_line_cstr:
  "scan_line line = map scan_char (cstr line) @ drop (length (cstr line)) line"
  by (induction line) (auto simp: cstr_def)

section \<open>What one call of \<open>add_result\<close> does, and the words in the table\<close>

lemma add_result_cases:
  obtains (rejected) "length name > LONGEST_WORD_LEN"
      "add_result malloc results k name ln = results"
  | (found) i where "length name \<le> LONGEST_WORD_LEN" "HASH_FIND_INT results k = Some i"
      "i < length results" "key (results ! i) = k"
      "add_result malloc results k name ln = results[i := update_entry (results ! i) name ln]"
  | (new) "length name \<le> LONGEST_WORD_LEN" "HASH_FIND_INT results k = None"
      "k \<notin> key ` set results"
      "add_result malloc results k name ln =
         results @ [update_entry ((malloc (length results))\<lparr>key := k\<rparr>) name ln]"
proof (cases "length name > LONGEST_WORD_LEN")
  case True
  then show ?thesis using rejected by (simp add: add_result_long)
next
  case False
  show ?thesis
  proof (cases "HASH_FIND_INT results k")
    case None
    then show ?thesis
      using False new add_result_new[OF False None] HASH_FIND_INT_None[of results k] by simp
  next
    case (Some i)
    then show ?thesis
      using False found add_result_found[OF False Some] HASH_FIND_INT_Some[OF Some] by simp
  qed
qed

lemma upsert_word_length:
  assumes "\<forall>r\<in>set rs. length (word r) \<le> LONGEST_WORD_LEN"
  shows "\<forall>r\<in>set (upsert malloc rs l t). length (word r) \<le> LONGEST_WORD_LEN"
proof (cases rule: add_result_cases[of t malloc rs "hash t" "sprintf_d (sint l)"])
  case rejected
  then show ?thesis using assms by (simp add: upsert_def)
next
  case (found i)
  have "set (rs[i := update_entry (rs ! i) t (sprintf_d (sint l))])
        \<subseteq> insert (update_entry (rs ! i) t (sprintf_d (sint l))) (set rs)"
    by (rule set_update_subset_insert)
  then show ?thesis
    using assms found(5) length_word_update_entry by (auto simp: upsert_def)
next
  case new
  then show ?thesis using assms length_word_update_entry by (auto simp: upsert_def)
qed

lemma main_loop_word_length:
  "\<forall>r\<in>set (main_loop malloc [] 0 calls). length (word r) \<le> LONGEST_WORD_LEN"
  by (rule main_loop_invariant[where P = "\<lambda>rs. \<forall>r\<in>set rs. length (word r) \<le> LONGEST_WORD_LEN"])
     (simp_all add: upsert_word_length)

lemma word_take_word_str:
  "length (word r) \<le> LONGEST_WORD_LEN \<Longrightarrow> take LONGEST_WORD_LEN (word_str r) = word r"
  by (simp add: word_str_def)

lemma sprintf_d_not_Nil: "sprintf_d l \<noteq> []"
  by (simp add: sprintf_d_def)

lemma strstr_Nil: "strstr [] n = None \<longleftrightarrow> n \<noteq> []"
  by simp

lemma hash_collision_45: "hash ''aaaaaaaaaaaaaaaaaaaaaaaaaaaaaaaaaaaaaaaaaaaaa'' = hash ''epsihys''"
  by (simp add: hash_def char_val_def)

lemma hash_collision_46: "hash ''aaaaaaaaaaaaaaaaaaaaaaaaaaaaaaaaaaaaaaaaaaaaaa'' = hash ''fzyllni''"
  by (simp add: hash_def char_val_def)

lemma truncated_summary_kept:
  assumes "length name < LONGEST_WORD_LEN"
    and "\<not> length (line_summary s) < LONGEST_LINE_SUMMARY_LEN - 16"
  shows "line_summary (update_entry s name ln) = line_summary s"
  using assms by (simp add: update_entry_def strcpy_word_short Let_def)

lemma upserts_snoc:
  "upserts malloc results (ops @ [(l, t)]) = upsert malloc (upserts malloc results ops) l t"
  by (simp add: upserts_def)

lemma upserts_words:
  "distinct (map key (upserts malloc [] ops)) \<and>
   (\<forall>r\<in>set (upserts malloc [] ops).
      filter (\<lambda>t. hash t = key r \<and> length t \<le> LONGEST_WORD_LEN) (map snd ops) \<noteq> [] \<and>
      word r = last (filter (\<lambda>t. hash t = key r \<and> length t \<le> LONGEST_WORD_LEN) (map snd ops)))"
proof (induction ops rule: rev_induct)
  case Nil
  then show ?case by (simp add: upserts_def)
next
  case (snoc p ops)
  obtain l t where p: "p = (l, t)" by (cases p)
  define rs where "rs = upserts malloc [] ops"
  define acc where
    "acc = (\<lambda>(r :: result_struct) (ops :: (32 word \<times> string) list). filter (\<lambda>t. hash t = key r \<and> length t \<le> LONGEST_WORD_LEN) (map snd ops))"
  from snoc have d: "distinct (map key rs)"
    and w: "\<And>r. r \<in> set rs \<Longrightarrow> acc r ops \<noteq> [] \<and> word r = last (acc r ops)"
    by (simp_all add: rs_def acc_def)
  have u: "upserts malloc [] (ops @ [p]) = add_result malloc rs (hash t) t (sprintf_d (sint l))"
    by (simp add: p upserts_snoc rs_def upsert_def)
  have goal: "distinct (map key (add_result malloc rs (hash t) t (sprintf_d (sint l)))) \<and>
    (\<forall>r\<in>set (add_result malloc rs (hash t) t (sprintf_d (sint l))).
       acc r (ops @ [p]) \<noteq> [] \<and> word r = last (acc r (ops @ [p])))"
  proof (cases rule: add_result_cases[of t malloc rs "hash t" "sprintf_d (sint l)"])
    case rejected
    then have "\<And>r. acc r (ops @ [p]) = acc r ops" by (simp add: acc_def p)
    with rejected d w show ?thesis by simp
  next
    case (found i)
    define e where "e = update_entry (rs ! i) t (sprintf_d (sint l))"
    have ke: "key e = hash t" by (simp add: e_def found(4))
    have we: "word e = t" using found(1) by (simp add: e_def)
    have keys: "map key (rs[i := e]) = map key rs"
      using found(3,4) ke by (simp add: map_update list_update_same_conv)
    have "acc r (ops @ [p]) \<noteq> [] \<and> word r = last (acc r (ops @ [p]))"
      if "r \<in> set (rs[i := e])" for r
    proof -
      from that obtain j where j: "j < length rs" "r = rs[i := e] ! j"
        by (auto simp: in_set_conv_nth)
      show ?thesis
      proof (cases "j = i")
        case True
        with j have "r = e" by simp
        then show ?thesis using ke we found(1) by (simp add: acc_def p)
      next
        case False
        with j have r: "r = rs ! j" by simp
        from False j(1) found(3) d have "key (rs ! j) \<noteq> key (rs ! i)"
          by (simp add: distinct_conv_nth)
        then have "acc r (ops @ [p]) = acc r ops" using r found(4) by (auto simp: acc_def p)
        moreover have "r \<in> set rs" using r j(1) by simp
        ultimately show ?thesis using w by simp
      qed
    qed
    then show ?thesis using d keys found(5) by (simp add: e_def)
  next
    case new
    define e where "e = update_entry ((malloc (length rs))\<lparr>key := hash t\<rparr>) t (sprintf_d (sint l))"
    have ke: "key e = hash t" by (simp add: e_def)
    have we: "word e = t" using new(1) by (simp add: e_def)
    have "acc r (ops @ [p]) \<noteq> [] \<and> word r = last (acc r (ops @ [p]))"
      if "r \<in> set (rs @ [e])" for r
    proof (cases "r = e")
      case True
      then show ?thesis using ke we new(1) by (simp add: acc_def p)
    next
      case False
      with that have in_rs: "r \<in> set rs" by simp
      with new(3) have "key r \<noteq> hash t" by (metis imageI)
      then have "acc r (ops @ [p]) = acc r ops" by (auto simp: acc_def p)
      with in_rs w show ?thesis by simp
    qed
    moreover have "distinct (map key (rs @ [e]))" using d new(3) ke by auto
    ultimately show ?thesis using new(4) by (simp add: e_def)
  qed
  show ?case using goal unfolding u acc_def by simp
qed

section \<open>The loops of \<open>main\<close> as a sequence of upserts\<close>

lemma upserts_append:
  "upserts malloc rs (a @ b) = upserts malloc (upserts malloc rs a) b"
  by (simp add: upserts_def)

lemma upserts_Cons:
  "upserts malloc rs ((l, t) # ops) = upserts malloc (upsert malloc rs l t) ops"
  by (simp add: upserts_def)

lemma upserts_Nil: "upserts malloc rs [] = rs"
  by (simp add: upserts_def)

lemma token_loop_upserts:
  "token_loop malloc results line_number s =
   upserts malloc results (map (Pair line_number) (tokens s))"
proof (induction malloc results line_number s rule: token_loop.induct)
  case (1 malloc results line_number s)
  show ?case
  proof (cases "strtok_r s")
    case None
    then show ?thesis
      by (simp add: token_loop.simps[of malloc results line_number s] tokens.simps[of s]
          upserts_Nil)
  next
    case (Some p)
    obtain token rest where p: "p = (token, rest)" by (cases p)
    have "token_loop malloc (upsert malloc results line_number token) line_number rest =
          upserts malloc (upsert malloc results line_number token)
            (map (Pair line_number) (tokens rest))"
      using "1.IH" Some p by blast
    then show ?thesis
      using Some p
      by (simp add: token_loop.simps[of malloc results line_number s] tokens.simps[of s]
          upserts_Cons)
  qed
qed

lemma main_loop_upserts:
  "main_loop malloc results line_number calls =
   upserts malloc results (occurrences line_number calls)"
proof (induction calls arbitrary: results line_number)
  case Nil
  then show ?case by (simp add: upserts_Nil)
next
  case (Cons c calls)
  show ?case
    by (simp add: Let_def Cons.IH upserts_Nil upserts_append token_loop_upserts)
qed

section \<open>Markers stay in the line summary\<close>







section \<open>Every maximal run of a line is a token\<close>


















section \<open>Every maximal run of the stream is an upsert of \<open>main\<close>\<close>

lemma getline_line:
  assumes "newline \<notin> set l1"
  shows "getline (l1 @ newline # others) = Some (l1 @ [newline], others)"
proof -
  from assms have all: "\<forall>x\<in>set l1. x \<noteq> newline" by blast
  then have "dropWhile (\<lambda>c. c \<noteq> newline) (l1 @ newline # others) = newline # others"
    and "takeWhile (\<lambda>c. c \<noteq> newline) (l1 @ newline # others) = l1"
    by simp_all
  then show ?thesis by (simp add: getline_def)
qed


lemma getline_append:
  assumes "getline s = Some (line, rest)"
  shows "s = line @ rest \<and> line \<noteq> []"
proof (cases "dropWhile (\<lambda>c. c \<noteq> newline) s")
  case Nil
  from assms show ?thesis unfolding getline_def Nil by (auto split: if_splits)
next
  case (Cons n others)
  have "s = takeWhile (\<lambda>c. c \<noteq> newline) s @ dropWhile (\<lambda>c. c \<noteq> newline) s" by simp
  then have "s = (takeWhile (\<lambda>c. c \<noteq> newline) s @ [n]) @ others" unfolding Cons by simp
  with assms Cons show ?thesis by (auto simp: getline_def split: if_splits)
qed

lemma sint_of_nat_small:
  assumes "n < 2 ^ 31"
  shows "sint (of_nat n :: 32 word) = int n"
proof -
  have "sint (of_nat n :: 32 word) = signed_take_bit 31 (int n)"
    by (simp add: signed_of_nat)
  also have "\<dots> = int n"
  proof (rule signed_take_bit_int_eq_self)
    show "- (2 ^ 31) \<le> int n" by simp
    from assms have "int n < int (2 ^ 31)" by (simp only: of_nat_less_iff)
    then show "int n < 2 ^ 31" by simp
  qed
  finally show ?thesis .
qed

lemma read_byte_actual_line:
  assumes "0 < n" and "n < 2 ^ 31"
  shows "(of_nat n :: 32 word) \<noteq> - 1 \<and> 0 < sint (of_nat n :: 32 word)"
proof -
  have s: "sint (of_nat n :: 32 word) = int n" using assms(2) by (rule sint_of_nat_small)
  have "sint (of_nat n :: 32 word) \<noteq> sint (- 1 :: 32 word)" unfolding s using assms(1) by simp
  then have "(of_nat n :: 32 word) \<noteq> - 1" by metis
  then show ?thesis unfolding s using assms(1) by simp
qed

lemma occurrences_Some:
  assumes "getline s = Some (line, rest)" and "length line < 2 ^ 31"
  shows "occurrences ln (conforming s) =
     map (Pair (ln + 1)) (tokens (cstr (scan_line line))) @ occurrences (ln + 1) (conforming rest)"
proof -
  have "0 < length line" using getline_append[OF assms(1)] by simp
  then have r: "(of_nat (length line) :: 32 word) \<noteq> - 1"
    "0 < sint (of_nat (length line) :: 32 word)"
    using assms(2) read_byte_actual_line by blast+
  show ?thesis using assms(1) r by (simp add: conforming.simps[of s] Let_def)
qed

lemma occurrences_Nil: "occurrences ln (conforming []) = []"
  by (simp add: conforming.simps[of "[]"] getline_def)




lemma upsert_fresh:
  assumes "length token < LONGEST_WORD_LEN"
    and "HASH_FIND_INT results (hash token) = None"
    and "line_summary (malloc (length results)) = []"
  shows "upsert malloc results line_number token =
         results @ [\<lparr>key = hash token, word = token,
                     line_summary = sprintf_d (sint line_number)\<rparr>]"
proof -
  have g: "\<not> length token > LONGEST_WORD_LEN" using assms(1) by simp
  have "update_entry ((malloc (length results))\<lparr>key := hash token\<rparr>) token
          (sprintf_d (sint line_number))
        = \<lparr>key = hash token, word = token, line_summary = sprintf_d (sint line_number)\<rparr>"
    using assms(1,3)
    by (simp add: update_entry_def strcpy_word_short Let_def sprintf_d_not_Nil strcat_def
        LONGEST_LINE_SUMMARY_LEN_def)
  then show ?thesis
    unfolding upsert_def add_result_new[OF g assms(2)] by simp
qed

section \<open>Decimal numbers and line-number markers\<close>

lemma decimal_lt10: "n < 10 \<Longrightarrow> decimal n = [digit n]"
  by (simp add: decimal.simps[of n])

lemma decimal_ge10: "\<not> n < 10 \<Longrightarrow> decimal n = decimal (n div 10) @ [digit (n mod 10)]"
  by (simp add: decimal.simps[of n])

lemma decimal_not_Nil: "decimal n \<noteq> []"
  by (cases "n < 10") (simp_all add: decimal_lt10 decimal_ge10)

lemma of_char_digit: "d < 10 \<Longrightarrow> (of_char (digit d) :: nat) = 48 + d"
  by (simp add: digit_def)

lemma digit_not_space: "d < 10 \<Longrightarrow> digit d \<noteq> space"
proof
  assume d: "d < 10" and "digit d = space"
  then have "(of_char (digit d) :: nat) = of_char space" by simp
  with d show False by (simp add: of_char_digit space_def)
qed

lemma digit_inj: "a < 10 \<Longrightarrow> b < 10 \<Longrightarrow> digit a = digit b \<Longrightarrow> a = b"
proof -
  assume a: "a < 10" and b: "b < 10" and "digit a = digit b"
  then have "(of_char (digit a) :: nat) = of_char (digit b)" by simp
  with a b show "a = b" by (simp add: of_char_digit)
qed

lemma decimal_no_space: "space \<notin> set (decimal n)"
proof (induction n rule: decimal.induct)
  case (1 n)
  show ?case
  proof (cases "n < 10")
    case True
    then show ?thesis using digit_not_space[of n] by (auto simp: decimal_lt10)
  next
    case False
    have "n mod 10 < 10" by simp
    then have "digit (n mod 10) \<noteq> space" by (rule digit_not_space)
    with False "1.IH" show ?thesis by (auto simp: decimal_ge10)
  qed
qed

lemma decimal_inj: "decimal a = decimal b \<Longrightarrow> a = b"
proof (induction a arbitrary: b rule: decimal.induct)
  case (1 a)
  show ?case
  proof (cases "a < 10")
    case a: True
    show ?thesis
    proof (cases "b < 10")
      case True
      with a "1.prems" show ?thesis by (auto simp: decimal_lt10 dest: digit_inj)
    next
      case False
      with a "1.prems" decimal_not_Nil[of "b div 10"] show ?thesis
        by (simp add: decimal_lt10 decimal_ge10)
    qed
  next
    case a: False
    show ?thesis
    proof (cases "b < 10")
      case True
      with a "1.prems" decimal_not_Nil[of "a div 10"] show ?thesis
        by (simp add: decimal_lt10 decimal_ge10)
    next
      case False
      with a "1.prems" have e: "decimal (a div 10) = decimal (b div 10)"
        and d: "digit (a mod 10) = digit (b mod 10)"
        by (simp_all add: decimal_ge10)
      from e a have "a div 10 = b div 10" by (rule "1.IH"[rotated])
      moreover have "a mod 10 = b mod 10" by (rule digit_inj[OF _ _ d]) simp_all
      ultimately show ?thesis by (metis div_mult_mod_eq)
    qed
  qed
qed

lemma length_decimal_le: "length (decimal n) \<le> Suc d \<longleftrightarrow> n < 10 ^ Suc d"
proof (induction d arbitrary: n)
  case 0
  show ?case
  proof (cases "n < 10")
    case True
    then show ?thesis by (simp add: decimal_lt10)
  next
    case False
    obtain x xs where "decimal (n div 10) = x # xs"
      using decimal_not_Nil[of "n div 10"] by (cases "decimal (n div 10)") auto
    then have "length (decimal n) = Suc (Suc (length xs))"
      using decimal_ge10[OF False] by simp
    with False show ?thesis by simp
  qed
next
  case (Suc d)
  show ?case
  proof (cases "n < 10")
    case True
    have "(10::nat) ^ 1 \<le> 10 ^ Suc (Suc d)" by (rule power_increasing) simp_all
    then have "(10::nat) \<le> 10 ^ Suc (Suc d)" by (simp only: power_one_right)
    with True have "n < 10 ^ Suc (Suc d)" by (rule less_le_trans)
    moreover have "length (decimal n) = 1" using True by (simp add: decimal_lt10)
    ultimately show ?thesis by simp
  next
    case False
    have "length (decimal n) = Suc (length (decimal (n div 10)))"
      using decimal_ge10[OF False] by simp
    then have "length (decimal n) \<le> Suc (Suc d) \<longleftrightarrow> length (decimal (n div 10)) \<le> Suc d"
      by simp
    also have "\<dots> \<longleftrightarrow> n div 10 < 10 ^ Suc d" by (rule Suc.IH)
    also have "\<dots> \<longleftrightarrow> n < 10 ^ Suc d * 10"
      by (rule div_less_iff_less_mult) simp
    also have "(10::nat) ^ Suc d * 10 = 10 ^ Suc (Suc d)" by simp
    finally show ?thesis .
  qed
qed

lemma length_decimal_mono: "a \<le> b \<Longrightarrow> length (decimal a) \<le> length (decimal b)"
proof -
  assume ab: "a \<le> b"
  obtain d where d: "length (decimal b) = Suc d"
    using decimal_not_Nil[of b] by (cases "decimal b") auto
  then have "b < 10 ^ Suc d" using length_decimal_le[of b d] by simp
  with ab have "a < 10 ^ Suc d" by simp
  then have "length (decimal a) \<le> Suc d" using length_decimal_le[of a d] by simp
  with d show ?thesis by simp
qed

lemma length_decimal_eq:
  assumes "10 ^ d \<le> n" and "n < 10 ^ Suc d"
  shows "length (decimal n) = Suc d"
proof -
  have le: "length (decimal n) \<le> Suc d" using assms(2) length_decimal_le[of n d] by simp
  have "\<not> length (decimal n) \<le> d"
  proof (cases d)
    case 0
    then show ?thesis using decimal_not_Nil[of n] by simp
  next
    case (Suc d')
    with assms(1) show ?thesis using length_decimal_le[of n d'] by simp
  qed
  with le show ?thesis by simp
qed

lemma sprintf_d_nat: "sprintf_d (int i) = space # decimal i"
  by (simp add: sprintf_d_def)

lemma space_split:
  assumes "u @ v = w @ space # z" and "space \<notin> set u"
  shows "\<exists>w'. w = u @ w' \<and> v = w' @ space # z"
proof -
  from assms(1) obtain us where
    "(u = w @ us \<and> us @ v = space # z) \<or> (u @ us = w \<and> v = us @ space # z)"
    by (auto simp: append_eq_append_conv2)
  then show ?thesis
  proof
    assume a: "u = w @ us \<and> us @ v = space # z"
    show ?thesis
    proof (cases us)
      case Nil
      with a show ?thesis by simp
    next
      case (Cons x xs)
      with a have "space \<in> set u" by auto
      with assms(2) show ?thesis by simp
    qed
  next
    assume "u @ us = w \<and> v = us @ space # z"
    then show ?thesis by auto
  qed
qed

lemma marker_not_earlier:
  assumes "\<forall>k\<in>set ks. k < n"
  shows "concat (map (\<lambda>k. sprintf_d (int k)) ks) \<noteq> a @ sprintf_d (int n) @ b"
  using assms
proof (induction ks arbitrary: a)
  case Nil
  then show ?case by (simp add: sprintf_d_nat)
next
  case (Cons k ks)
  define C where "C = concat (map (\<lambda>k. sprintf_d (int k)) ks)"
  have kn: "k < n" and rest: "\<forall>k\<in>set ks. k < n" using Cons.prems by simp_all
  show ?case
  proof
    assume "concat (map (\<lambda>k. sprintf_d (int k)) (k # ks)) = a @ sprintf_d (int n) @ b"
    then have eq: "space # decimal k @ C = a @ space # decimal n @ b"
      by (simp add: sprintf_d_nat C_def)
    show False
    proof (cases a)
      case Nil
      with eq have e: "decimal k @ C = decimal n @ b" by simp
      have "C = [] \<or> hd C = space"
      proof (cases ks)
        case Nil
        then show ?thesis by (simp add: C_def)
      next
        case (Cons k' ks')
        then show ?thesis by (simp add: C_def sprintf_d_nat)
      qed
      from e obtain us where
        us: "(decimal k = decimal n @ us \<and> us @ C = b) \<or> (decimal k @ us = decimal n \<and> C = us @ b)"
        by (auto simp: append_eq_append_conv2)
      have len: "length (decimal k) \<le> length (decimal n)"
        using kn by (simp add: length_decimal_mono)
      from us show False
      proof
        assume a1: "decimal k = decimal n @ us \<and> us @ C = b"
        then have "length (decimal k) = length (decimal n) + length us"
          by (metis length_append)
        with len have "us = []" by simp
        with a1 have "decimal k = decimal n" by simp
        then have "k = n" by (rule decimal_inj)
        with kn show False by simp
      next
        assume a2: "decimal k @ us = decimal n \<and> C = us @ b"
        show False
        proof (cases us)
          case Nil
          with a2 have "decimal k = decimal n" by simp
          then have "k = n" by (rule decimal_inj)
          with kn show False by simp
        next
          case (Cons x xs)
          with a2 \<open>C = [] \<or> hd C = space\<close> have "x = space" by auto
          with Cons a2 have "space \<in> set (decimal n)"
            by (metis in_set_conv_decomp)
          with decimal_no_space show False by blast
        qed
      qed
    next
      case (Cons x a')
      with eq have e: "decimal k @ C = a' @ space # decimal n @ b" by simp
      from space_split[OF e decimal_no_space] obtain w' where "C = w' @ space # decimal n @ b"
        by blast
      then have "C = w' @ sprintf_d (int n) @ b" by (simp add: sprintf_d_nat)
      with Cons.IH[OF rest, of w'] show False by (simp add: C_def)
    qed
  qed
qed

lemma strstr_markers:
  "\<forall>k\<in>set ks. k < n \<Longrightarrow>
   strstr (concat (map (\<lambda>k. sprintf_d (int k)) ks)) (sprintf_d (int n)) = None"
  using marker_not_earlier[of ks n] strstr_iff[of "concat (map (\<lambda>k. sprintf_d (int k)) ks)" "sprintf_d (int n)"]
  by blast

section \<open>One word on consecutive lines\<close>

lemma markers_0: "markers 0 = []"
  by (simp add: markers_def)

lemma markers_Suc: "markers (Suc n) = markers n @ sprintf_d (int (Suc n))"
  by (simp add: markers_def)

lemma strstr_markers_next: "strstr (markers n) (sprintf_d (int (Suc n))) = None"
  unfolding markers_def by (rule strstr_markers) auto

lemma single_word_lines:
  assumes "length t < LONGEST_WORD_LEN" and "line_summary (malloc 0) = []"
  shows "length (markers n) < LONGEST_LINE_SUMMARY_LEN - 16 \<Longrightarrow> Suc (Suc n) < 2 ^ 31 \<Longrightarrow>
         upserts malloc [] (map (\<lambda>k. (of_nat k, t)) [1..<Suc (Suc n)])
         = [\<lparr>key = hash t, word = t, line_summary = markers (Suc n)\<rparr>]"
proof (induction n)
  case 0
  have f: "HASH_FIND_INT [] (hash t) = None" by simp
  have m: "line_summary (malloc (length ([] :: result_struct list))) = []"
    using assms(2) by simp
  have "upsert malloc [] 1 t
        = [] @ [\<lparr>key = hash t, word = t, line_summary = sprintf_d (sint (1 :: 32 word))\<rparr>]"
    using assms(1) f m by (rule upsert_fresh)
  then show ?case by (simp add: upserts_def markers_def)
next
  case (Suc n)
  have "length (markers n) \<le> length (markers (Suc n))" by (simp add: markers_Suc)
  with Suc.prems have "length (markers n) < LONGEST_LINE_SUMMARY_LEN - 16" by simp
  moreover have b: "Suc (Suc n) < 2 ^ 31" using Suc.prems(2) by simp
  ultimately have ih: "upserts malloc [] (map (\<lambda>k. (of_nat k, t)) [1..<Suc (Suc n)])
         = [\<lparr>key = hash t, word = t, line_summary = markers (Suc n)\<rparr>]"
    by (rule Suc.IH)
  have g: "\<not> length t > LONGEST_WORD_LEN" using assms(1) by simp
  have f: "HASH_FIND_INT [\<lparr>key = hash t, word = t, line_summary = markers (Suc n)\<rparr>] (hash t) = Some 0"
    by simp
  have si: "sint (of_nat (Suc (Suc n)) :: 32 word) = int (Suc (Suc n))"
    using b by (rule sint_of_nat_small)
  have u: "update_entry \<lparr>key = hash t, word = t, line_summary = markers (Suc n)\<rparr> t
             (sprintf_d (int (Suc (Suc n))))
           = \<lparr>key = hash t, word = t, line_summary = markers (Suc (Suc n))\<rparr>"
    using Suc.prems(1) strstr_markers_next[of "Suc n"]
    by (simp add: update_entry_def strcpy_word_short[OF assms(1)] Let_def strcat_def
        markers_Suc[of "Suc n"])
  have "upserts malloc [] (map (\<lambda>k. (of_nat k, t)) [1..<Suc (Suc (Suc n))])
        = upsert malloc (upserts malloc [] (map (\<lambda>k. (of_nat k, t)) [1..<Suc (Suc n)]))
            (of_nat (Suc (Suc n))) t"
    by (simp add: upserts_def)
  also have "\<dots> = [\<lparr>key = hash t, word = t, line_summary = markers (Suc (Suc n))\<rparr>]"
    unfolding ih upsert_def add_result_found[OF g f] si using u by simp
  finally show ?case .
qed


lemma occurrences_replicate:
  assumes "tokens (cstr (scan_line (l @ [newline]))) = [t]" and "newline \<notin> set l"
    and "length (l @ [newline]) < 2 ^ 31"
  shows "occurrences ln (conforming (concat (replicate n (l @ [newline])) @ rest))
         = map (\<lambda>k. (ln + of_nat k, t)) [1..<Suc n] @ occurrences (ln + of_nat n) (conforming rest)"
proof (induction n arbitrary: ln)
  case 0
  then show ?case by simp
next
  case (Suc n)
  have s: "concat (replicate (Suc n) (l @ [newline])) @ rest
           = l @ newline # (concat (replicate n (l @ [newline])) @ rest)"
    by simp
  have g: "getline (concat (replicate (Suc n) (l @ [newline])) @ rest)
           = Some (l @ [newline], concat (replicate n (l @ [newline])) @ rest)"
    unfolding s using assms(2) by (rule getline_line)
  have r: "[1..<Suc (Suc n)] = 1 # map Suc [1..<Suc n]"
    by (simp add: upt_conv_Cons map_Suc_upt del: upt_Suc)
  have "occurrences ln (conforming (concat (replicate (Suc n) (l @ [newline])) @ rest))
        = (ln + 1, t)
          # occurrences (ln + 1) (conforming (concat (replicate n (l @ [newline])) @ rest))"
    unfolding occurrences_Some[OF g assms(3)] assms(1) by simp
  also have "occurrences (ln + 1) (conforming (concat (replicate n (l @ [newline])) @ rest))
        = map (\<lambda>k. (ln + 1 + of_nat k, t)) [1..<Suc n]
          @ occurrences (ln + 1 + of_nat n) (conforming rest)"
    by (rule Suc.IH)
  finally show ?case
    unfolding r by (simp add: o_def ac_simps del: upt_Suc)
qed

lemma length_markers_range:
  assumes "\<forall>k\<in>set ks. 10 ^ d \<le> k \<and> k < 10 ^ Suc d"
  shows "length (concat (map (\<lambda>k. sprintf_d (int k)) ks)) = length ks * (d + 2)"
  using assms
proof (induction ks)
  case Nil
  then show ?case by simp
next
  case (Cons k ks)
  then have "length (decimal k) = Suc d" by (simp add: length_decimal_eq)
  with Cons show ?case by (simp add: sprintf_d_nat)
qed

lemma upt_split: "a \<le> b \<Longrightarrow> b \<le> c \<Longrightarrow> [a..<c] = [a..<b] @ [b..<c]"
  by (metis le_Suc_ex upt_add_eq_append)

lemma length_markers_3525: "length (markers 3525) = 16518"
proof -
  have "[1..<3526] = [1..<10] @ [10..<3526::nat]" by (rule upt_split) simp_all
  also have "[10..<3526] = [10..<100] @ [100..<3526::nat]" by (rule upt_split) simp_all
  also have "[100..<3526] = [100..<1000] @ [1000..<3526::nat]" by (rule upt_split) simp_all
  finally have s: "[1..<3526] = [1..<10] @ [10..<100] @ [100..<1000] @ [1000..<3526::nat]" .
  have 1: "length (concat (map (\<lambda>k. sprintf_d (int k)) [1..<10])) = length [1..<10::nat] * (0 + 2)"
    by (rule length_markers_range) (simp del: upt_rec_numeral)
  have 2: "length (concat (map (\<lambda>k. sprintf_d (int k)) [10..<100])) = length [10..<100::nat] * (1 + 2)"
    by (rule length_markers_range) (simp del: upt_rec_numeral)
  have 3: "length (concat (map (\<lambda>k. sprintf_d (int k)) [100..<1000])) = length [100..<1000::nat] * (2 + 2)"
    by (rule length_markers_range) (simp del: upt_rec_numeral)
  have 4: "length (concat (map (\<lambda>k. sprintf_d (int k)) [1000..<3526])) = length [1000..<3526::nat] * (3 + 2)"
    by (rule length_markers_range) (simp del: upt_rec_numeral)
  have "Suc 3525 = 3526" by simp
  then have "length (markers 3525)
      = length (concat (map (\<lambda>k. sprintf_d (int k))
                 ([1..<10] @ [10..<100] @ [100..<1000] @ [1000..<3526::nat])))"
    unfolding markers_def using s by simp
  also have "\<dots> = length [1..<10::nat] * (0 + 2) + (length [10..<100::nat] * (1 + 2)
      + (length [100..<1000::nat] * (2 + 2) + length [1000..<3526::nat] * (3 + 2)))"
    unfolding map_append concat_append length_append 1 2 3 4 ..
  also have "\<dots> = 16518" by (simp del: upt_rec_numeral)
  finally show ?thesis .
qed

lemma length_markers_3526: "length (markers 3526) = 16523"
proof -
  have "Suc 3525 = 3526" by simp
  then have m: "markers 3526 = markers 3525 @ sprintf_d (int 3526)"
    using markers_Suc[of 3525] by simp
  have d: "length (decimal 3526) = Suc 3" by (rule length_decimal_eq) simp_all
  have "length (sprintf_d (int 3526)) = 5" unfolding sprintf_d_nat using d by simp
  then show ?thesis unfolding m by (simp add: length_markers_3525)
qed

text \<open>The equations that evaluate the program on a concrete input.\<close>

lemmas eval_defs = getline_def scan_char_def isalpha_def isupper_def islower_def tolower_def
  NUL_def newline_def space_def apostrophe_def char_of_eq_iff char_eq_char_of cstr_def strtok_r_def
  sprintf_d_def digit_def hash_def char_val_def upsert_def add_result_def update_entry_def
  strcpy_word_def spill_def strcat_def HASH_ADD_INT_def LONGEST_WORD_LEN_def
  LONGEST_LINE_SUMMARY_LEN_def decimal.simps token_loop.simps conforming.simps Let_def

lemma main_loop_replicate:
  assumes "tokens (cstr (scan_line (l @ [newline]))) = [t]" and "newline \<notin> set l"
    and "length (l @ [newline]) < 2 ^ 31"
  shows "main_loop malloc [] 0 (conforming (concat (replicate n (l @ [newline])) @ rest))
         = upserts malloc (upserts malloc [] (map (\<lambda>k. (of_nat k, t)) [1..<Suc n]))
             (occurrences (of_nat n) (conforming rest))"
  unfolding main_loop_upserts occurrences_replicate[OF assms] upserts_append by simp

lemma single_word_stream:
  assumes "tokens (cstr (scan_line (l @ [newline]))) = [t]" and "newline \<notin> set l"
    and "length (l @ [newline]) < 2 ^ 31"
    and "length t < LONGEST_WORD_LEN" and "line_summary (malloc 0) = []"
    and "length (markers n) < LONGEST_LINE_SUMMARY_LEN - 16" and "Suc (Suc n) < 2 ^ 31"
  shows "main_loop malloc [] 0 (conforming (concat (replicate (Suc n) (l @ [newline])) @ rest))
         = upserts malloc [\<lparr>key = hash t, word = t, line_summary = markers (Suc n)\<rparr>]
             (occurrences (of_nat (Suc n)) (conforming rest))"
  unfolding main_loop_replicate[OF assms(1,2,3)]
    single_word_lines[where t = t and malloc = malloc and n = n, OF assms(4,5,6,7)] ..

lemma occurrences_one_line:
  assumes "tokens (cstr (scan_line (l @ [newline]))) = [t]" and "newline \<notin> set l"
    and "length (l @ [newline]) < 2 ^ 31"
  shows "occurrences ln (conforming (l @ [newline])) = [(ln + 1, t)]"
proof -
  have g: "getline (l @ [newline]) = Some (l @ [newline], [])"
    using getline_line[OF assms(2), of "[]"] by simp
  show ?thesis unfolding occurrences_Some[OF g assms(3)] assms(1) by (simp add: occurrences_Nil)
qed


lemma tokens_epsihys: "tokens (cstr (scan_line (''epsihys'' @ [newline]))) = [''epsihys'']"
  by (simp add: eval_defs tokens.simps)

lemma tokens_a45:
  "tokens (cstr (scan_line (''aaaaaaaaaaaaaaaaaaaaaaaaaaaaaaaaaaaaaaaaaaaaa'' @ [newline])))
   = [''aaaaaaaaaaaaaaaaaaaaaaaaaaaaaaaaaaaaaaaaaaaaa'']"
  by (simp add: eval_defs tokens.simps)

lemma overrun_empties_summary:
  "upsert malloc [\<lparr>key = hash ''epsihys'', word = ''epsihys'', line_summary = summary\<rparr>]
        3527 ''aaaaaaaaaaaaaaaaaaaaaaaaaaaaaaaaaaaaaaaaaaaaa''
     = [\<lparr>key = hash ''epsihys'', word = ''aaaaaaaaaaaaaaaaaaaaaaaaaaaaaaaaaaaaaaaaaaaaa'', line_summary = '' 3527''\<rparr>]"
proof -
  have l: "length ''aaaaaaaaaaaaaaaaaaaaaaaaaaaaaaaaaaaaaaaaaaaaa'' = LONGEST_WORD_LEN"
    by (simp add: LONGEST_WORD_LEN_def)
  then have g: "\<not> length ''aaaaaaaaaaaaaaaaaaaaaaaaaaaaaaaaaaaaaaaaaaaaa'' > LONGEST_WORD_LEN" by simp
  have f: "HASH_FIND_INT [\<lparr>key = hash ''epsihys'', word = ''epsihys'', line_summary = summary\<rparr>]
      (hash ''aaaaaaaaaaaaaaaaaaaaaaaaaaaaaaaaaaaaaaaaaaaaa'') = Some 0"
    by (simp add: hash_collision_45)
  have m: "sprintf_d (sint (3527 :: 32 word)) = '' 3527''"
    by (simp add: sprintf_d_def decimal.simps digit_def space_def char_of_eq_iff)
  show ?thesis
    unfolding upsert_def add_result_found[OF g f] m
    by (simp add: update_entry_def strcpy_word_exact[OF l] Let_def
        strcat_def LONGEST_LINE_SUMMARY_LEN_def)
qed

section \<open>The claims\<close>

text \<open>
  A run after a NUL byte of its line is lost: the scan and \<open>strtok_r\<close> stop at the first
  NUL of the line, so the run \<open>a\<close>, a maximal run of one byte on line 1, is never
  hashed, and the final table is empty.
\<close>

theorem run_after_NUL_lost:
  "run_char CHR ''a'' \<and> \<not> run_char NUL \<and> \<not> run_char newline
   \<and> main_loop zero_block [] 0 (conforming [NUL, CHR ''a'', newline]) = []"
  by (simp add: eval_defs run_char_def)





text \<open>
  C2 fails on the program: \<open>add_result\<close> reads the line summary of a new item without
  ever initialising it, so what is printed after each word starts with whatever the
  block \<open>malloc\<close> returned holds there. On the input
  \<open>"Dogs chase cats.\\nCats chase dogs!\\n"\<close>, read by a \<open>getline\<close> that behaves as POSIX
  describes, with blocks that hold the C string \<open>" 9"\<close> at \<open>line_summary\<close>, the output is
  the three lines \<open>cats 9 1 2\<close>, \<open>chase 9 1 2\<close>, \<open>dogs 9 1 2\<close>. The output is the one of
  the claim when the blocks hold zero bytes.
\<close>

theorem C2_summary_read_uninitialised:
  "main used_block (conforming (''Dogs chase cats.'' @ [newline] @ ''Cats chase dogs!'' @ [newline]))
     = ''cats 9 1 2'' @ [newline] @ ''chase 9 1 2'' @ [newline] @ ''dogs 9 1 2'' @ [newline]
   \<and> main zero_block (conforming (''Dogs chase cats.'' @ [newline] @ ''Cats chase dogs!'' @ [newline]))
     = ''cats 1 2'' @ [newline] @ ''chase 1 2'' @ [newline] @ ''dogs 1 2'' @ [newline]"
proof -
  have used: "main_loop used_block [] 0 (conforming (''Dogs chase cats.'' @ [newline] @ ''Cats chase dogs!'' @ [newline]))
      = [\<lparr>key = 3089079, word = ''dogs'', line_summary = '' 9 1 2''\<rparr>,
         \<lparr>key = 94623726, word = ''chase'', line_summary = '' 9 1 2''\<rparr>,
         \<lparr>key = 3046237, word = ''cats'', line_summary = '' 9 1 2''\<rparr>]"
    by (simp add: eval_defs used_block_def)
  have zero: "main_loop zero_block [] 0 (conforming (''Dogs chase cats.'' @ [newline] @ ''Cats chase dogs!'' @ [newline]))
      = [\<lparr>key = 3089079, word = ''dogs'', line_summary = '' 1 2''\<rparr>,
         \<lparr>key = 94623726, word = ''chase'', line_summary = '' 1 2''\<rparr>,
         \<lparr>key = 3046237, word = ''cats'', line_summary = '' 1 2''\<rparr>]"
    by (simp add: eval_defs zero_block_def)
  have sort: "sort_by_name
        [\<lparr>key = 3089079, word = ''dogs'', line_summary = b\<rparr>,
         \<lparr>key = 94623726, word = ''chase'', line_summary = b\<rparr>,
         \<lparr>key = 3046237, word = ''cats'', line_summary = b\<rparr>]
      = [\<lparr>key = 3046237, word = ''cats'', line_summary = b\<rparr>,
         \<lparr>key = 94623726, word = ''chase'', line_summary = b\<rparr>,
         \<lparr>key = 3089079, word = ''dogs'', line_summary = b\<rparr>]" for b
    by (simp add: sort_by_name_def HASH_SORT_def name_sort_def word_str_def LONGEST_WORD_LEN_def)
  have 1: "main used_block (conforming (''Dogs chase cats.'' @ [newline] @ ''Cats chase dogs!'' @ [newline]))
     = ''cats 9 1 2'' @ [newline] @ ''chase 9 1 2'' @ [newline] @ ''dogs 9 1 2'' @ [newline]"
    unfolding main_def used sort
    by (simp add: print_results_def report_line_def word_str_def LONGEST_WORD_LEN_def)
  have 2: "main zero_block (conforming (''Dogs chase cats.'' @ [newline] @ ''Cats chase dogs!'' @ [newline]))
     = ''cats 1 2'' @ [newline] @ ''chase 1 2'' @ [newline] @ ''dogs 1 2'' @ [newline]"
    unfolding main_def zero sort
    by (simp add: print_results_def report_line_def word_str_def LONGEST_WORD_LEN_def)
  show ?thesis using 1 2 by (rule conjI)
qed

text \<open>
  C3. In the report, which holds one line per item of the sorted table, the word of each
  line compares less than or equal to the word of the next line under \<open>strcmp\<close>: both as
  the string \<open>strcmp\<close> and \<open>printf\<close> read at \<open>s->word\<close>, and as the contents of the array
  \<open>word\<close>.
\<close>

theorem C3_report_sorted:
  assumes "rs = sort_by_name (main_loop malloc [] 0 calls)" and "Suc i < length rs"
  shows "main malloc calls = concat (map report_line rs)
       \<and> strcmp (word_str (rs ! i)) (word_str (rs ! Suc i)) \<le> 0
       \<and> strcmp (word (rs ! i)) (word (rs ! Suc i)) \<le> 0"
proof -
  have "sorted_wrt (\<lambda>a b. name_sort a b \<le> 0) rs"
    unfolding assms(1) by (rule sort_by_name_sorted)
  then have "name_sort (rs ! i) (rs ! Suc i) \<le> 0"
    using assms(2) by (simp add: sorted_wrt_iff_nth_less)
  then have s: "strcmp (word_str (rs ! i)) (word_str (rs ! Suc i)) \<le> 0"
    by (simp add: name_sort_def)
  have "\<forall>r\<in>set rs. length (word r) \<le> LONGEST_WORD_LEN"
    unfolding assms(1) set_sort_by_name by (rule main_loop_word_length)
  then have "length (word (rs ! i)) \<le> LONGEST_WORD_LEN"
    "length (word (rs ! Suc i)) \<le> LONGEST_WORD_LEN"
    using assms(2) by simp_all
  then have "word (rs ! i) = take LONGEST_WORD_LEN (word_str (rs ! i))"
    "word (rs ! Suc i) = take LONGEST_WORD_LEN (word_str (rs ! Suc i))"
    by (simp_all add: word_take_word_str)
  then have w: "strcmp (word (rs ! i)) (word (rs ! Suc i)) \<le> 0"
    using strcmp_take[OF s, of LONGEST_WORD_LEN] by simp
  show ?thesis using s w by (simp add: main_def print_results_def assms(1))
qed

theorem C3_witness:
  "Suc 0 < length (sort_by_name (main_loop zero_block [] 0 (conforming [CHR ''b'', space, CHR ''a'', newline])))
   \<and> main zero_block (conforming [CHR ''b'', space, CHR ''a'', newline]) = ''a 1'' @ [newline] @ ''b 1'' @ [newline]
   \<and> strcmp (word_str (sort_by_name (main_loop zero_block [] 0 (conforming [CHR ''b'', space, CHR ''a'', newline])) ! 0))
        (word_str (sort_by_name (main_loop zero_block [] 0 (conforming [CHR ''b'', space, CHR ''a'', newline])) ! Suc 0)) \<le> 0"
proof -
  have e: "sort_by_name (main_loop zero_block [] 0 (conforming [CHR ''b'', space, CHR ''a'', newline]))
      = [\<lparr>key = 97, word = ''a'', line_summary = '' 1''\<rparr>,
         \<lparr>key = 98, word = ''b'', line_summary = '' 1''\<rparr>]"
    by (simp add: eval_defs zero_block_def sort_by_name_def HASH_SORT_def name_sort_def
        word_str_def)
  have h: "Suc 0 < length (sort_by_name (main_loop zero_block [] 0 (conforming [CHR ''b'', space, CHR ''a'', newline])))"
    by (simp add: e)
  show ?thesis
    using h C3_report_sorted [OF refl h]
    by (simp add: e report_line_def word_str_def LONGEST_WORD_LEN_def)
qed

text \<open>
  C4. Performing the same upsert (same word, same line number) twice in succession
  leaves the table, and so the line summary of the word's item, as performing it once:
  the second insertion of the marker is a no-op. This holds for every table, every word
  and every line number.
\<close>

theorem C4_upsert_idempotent:
  "upsert malloc (upsert malloc results line_number token) line_number token =
   upsert malloc results line_number token"
  unfolding upsert_def by (rule add_result_idem)

text \<open>
  C5. An upsert of a word longer than 45 bytes leaves the table as it is (the model has
  no error to raise), and no such word is the word of an item of the sorted table the
  report is printed from, whatever the calls of \<open>getline\<close> deliver.
\<close>

theorem C5_oversize_rejected:
  assumes "length token > LONGEST_WORD_LEN"
  shows "upsert malloc results line_number token = results
       \<and> (\<forall>r\<in>set (sort_by_name (main_loop malloc' [] 0 calls)). word r \<noteq> token)"
proof -
  have "\<forall>r\<in>set (main_loop malloc' [] 0 calls). length (word r) \<le> LONGEST_WORD_LEN"
    by (rule main_loop_word_length)
  then have "\<forall>r\<in>set (sort_by_name (main_loop malloc' [] 0 calls)). word r \<noteq> token"
    using assms unfolding set_sort_by_name by auto
  then show ?thesis using assms by (simp add: upsert_def add_result_long)
qed

theorem C5_witness:
  "length (replicate 46 CHR ''a'') > LONGEST_WORD_LEN
   \<and> upsert zero_block [] 1 (replicate 46 CHR ''a'') = []"
proof -
  have h: "length (replicate 46 CHR ''a'') > LONGEST_WORD_LEN"
    by (simp add: LONGEST_WORD_LEN_def)
  show ?thesis
    using h C5_oversize_rejected [OF h, of zero_block "[]" 1 zero_block "[]"] by simp
qed

text \<open>
  C6 fails on the code: \<open>add_result\<close> sets the key of the new item and copies the word,
  but never initialises \<open>line_summary\<close> before \<open>strlen\<close>, \<open>strstr\<close> and \<open>strcat\<close> read it.
  The upsert of the word \<open>a\<close> for line 1 on the empty table, with a block from \<open>malloc\<close>
  that holds the C string \<open>" 9"\<close> at \<open>line_summary\<close>, creates the item with the key and the
  word of the claim, but its line summary is \<open>" 9 1"\<close>, not the single marker \<open>" 1"\<close>.
\<close>

theorem C6_summary_not_initialised:
  "HASH_FIND_INT [] (hash ''a'') = None
   \<and> upsert used_block [] 1 ''a'' = [\<lparr>key = hash ''a'', word = ''a'', line_summary = '' 9 1''\<rparr>]
   \<and> sprintf_d (sint (1 :: 32 word)) = '' 1''"
  by (simp add: upsert_def add_result_def update_entry_def strcpy_word_def spill_def
      strcat_def HASH_ADD_INT_def LONGEST_WORD_LEN_def LONGEST_LINE_SUMMARY_LEN_def
      used_block_def sprintf_d_def decimal.simps digit_def space_def char_of_eq_iff
      char_eq_char_of)

text \<open>
  C7 fails on the program, by the overrun of C10. The words \<open>epsihys\<close> and
  \<open>aaaaaaaaaaaaaaaaaaaaaaaaaaaaaaaaaaaaaaaaaaaaa\<close> (45 bytes) have the same hash. After
  3526 lines \<open>epsihys\<close> the summary of the item has reached the truncation threshold.
  A further line with the 45-byte word empties the summary and then appends the marker
  of line 3527: the item is reported with that marker alone.
\<close>

theorem C7_truncated_summary_lost:
  "main_loop zero_block [] 0 (conforming (concat (replicate 3526 (''epsihys'' @ [newline]))))
     = [\<lparr>key = hash ''epsihys'', word = ''epsihys'', line_summary = markers 3526\<rparr>]
   \<and> \<not> length (markers 3526) < LONGEST_LINE_SUMMARY_LEN - 16
   \<and> hash ''aaaaaaaaaaaaaaaaaaaaaaaaaaaaaaaaaaaaaaaaaaaaa'' = hash ''epsihys''
   \<and> main_loop zero_block [] 0 (conforming (concat (replicate 3526 (''epsihys'' @ [newline]))
         @ ''aaaaaaaaaaaaaaaaaaaaaaaaaaaaaaaaaaaaaaaaaaaaa'' @ [newline]))
     = [\<lparr>key = hash ''epsihys'', word = ''aaaaaaaaaaaaaaaaaaaaaaaaaaaaaaaaaaaaaaaaaaaaa'',
         line_summary = '' 3527''\<rparr>]"
proof -
  have n: "newline \<notin> set ''epsihys''" by (simp add: newline_def)
  have n45: "newline \<notin> set ''aaaaaaaaaaaaaaaaaaaaaaaaaaaaaaaaaaaaaaaaaaaaa''" by (simp add: newline_def)
  have len: "length (''epsihys'' @ [newline]) < 2 ^ 31" by simp
  have len45: "length (''aaaaaaaaaaaaaaaaaaaaaaaaaaaaaaaaaaaaaaaaaaaaa'' @ [newline]) < 2 ^ 31" by simp
  have short: "length ''epsihys'' < LONGEST_WORD_LEN" by (simp add: LONGEST_WORD_LEN_def)
  have z: "line_summary (zero_block 0) = []" by (simp add: zero_block_def)
  have below: "length (markers 3525) < LONGEST_LINE_SUMMARY_LEN - 16"
    by (simp add: length_markers_3525 LONGEST_LINE_SUMMARY_LEN_def)
  have bound: "Suc (Suc 3525) < 2 ^ 31" by simp
  have above: "\<not> length (markers 3526) < LONGEST_LINE_SUMMARY_LEN - 16"
    using length_markers_3526 by (simp add: LONGEST_LINE_SUMMARY_LEN_def)
  have s: "(3526::nat) = Suc 3525" by simp
  have run: "main_loop zero_block [] 0
          (conforming (concat (replicate (Suc 3525) (''epsihys'' @ [newline])) @ rest))
        = upserts zero_block
            [\<lparr>key = hash ''epsihys'', word = ''epsihys'', line_summary = markers (Suc 3525)\<rparr>]
            (occurrences (of_nat (Suc 3525)) (conforming rest))" for rest
    using tokens_epsihys n len short z below bound by (rule single_word_stream)
  have 1: "main_loop zero_block [] 0
        (conforming (concat (replicate 3526 (''epsihys'' @ [newline]))))
     = [\<lparr>key = hash ''epsihys'', word = ''epsihys'', line_summary = markers 3526\<rparr>]"
    using run[of "[]"] unfolding s by (simp add: occurrences_Nil upserts_Nil)
  have lost: "upsert zero_block
       [\<lparr>key = hash ''epsihys'', word = ''epsihys'', line_summary = markers (Suc 3525)\<rparr>]
       3527 ''aaaaaaaaaaaaaaaaaaaaaaaaaaaaaaaaaaaaaaaaaaaaa''
     = [\<lparr>key = hash ''epsihys'', word = ''aaaaaaaaaaaaaaaaaaaaaaaaaaaaaaaaaaaaaaaaaaaaa'',
         line_summary = '' 3527''\<rparr>]"
    by (rule overrun_empties_summary)
  have 2: "main_loop zero_block [] 0 (conforming (concat (replicate 3526 (''epsihys'' @ [newline]))
         @ ''aaaaaaaaaaaaaaaaaaaaaaaaaaaaaaaaaaaaaaaaaaaaa'' @ [newline]))
     = [\<lparr>key = hash ''epsihys'', word = ''aaaaaaaaaaaaaaaaaaaaaaaaaaaaaaaaaaaaaaaaaaaaa'',
         line_summary = '' 3527''\<rparr>]"
    unfolding s run occurrences_one_line[OF tokens_a45 n45 len45] using lost
    by (simp add: upserts_def)
  show ?thesis using 1 above hash_collision_45 2 by (intro conjI)
qed

text \<open>
  C8, as stated, fails for a word longer than 45 bytes whose key exists: \<open>fzyllni\<close> and
  the 46-byte word \<open>aaaaaaaaaaaaaaaaaaaaaaaaaaaaaaaaaaaaaaaaaaaaaa\<close> have the same hash, and
  the upsert of the longer one leaves the word \<open>fzyllni\<close> in the item.
\<close>

theorem C8_counterexample:
  "HASH_FIND_INT (upsert zero_block [] 1 ''fzyllni'') (hash ''aaaaaaaaaaaaaaaaaaaaaaaaaaaaaaaaaaaaaaaaaaaaaa'') = Some 0
   \<and> map word (upsert zero_block (upsert zero_block [] 1 ''fzyllni'') 2 ''aaaaaaaaaaaaaaaaaaaaaaaaaaaaaaaaaaaaaaaaaaaaaa'')
       = [''fzyllni'']"
proof -
  have 1: "upsert zero_block [] 1 ''fzyllni''
      = [\<lparr>key = hash ''fzyllni'', word = ''fzyllni'', line_summary = '' 1''\<rparr>]"
    by (simp add: upsert_def add_result_def update_entry_def strcpy_word_def spill_def
        strcat_def HASH_ADD_INT_def LONGEST_WORD_LEN_def LONGEST_LINE_SUMMARY_LEN_def
        zero_block_def sprintf_d_def decimal.simps digit_def space_def char_of_eq_iff)
  show ?thesis
    unfolding 1 by (simp add: hash_collision_46 upsert_def add_result_def LONGEST_WORD_LEN_def)
qed

text \<open>
  C8, amended. An upsert of a word of at most 45 bytes whose key exists overwrites the
  word of the existing item with the token, whatever the stored text was; and after any
  sequence of upserts on the empty table, the word of each item is the text of the most
  recent token of at most 45 bytes that hashes to the item's key.
\<close>

theorem C8_word_overwritten:
  assumes "length token \<le> LONGEST_WORD_LEN"
    and "HASH_FIND_INT results (hash token) = Some i"
  shows "word (upsert malloc results line_number token ! i) = token
       \<and> key (upsert malloc results line_number token ! i) = hash token
       \<and> (\<forall>r\<in>set (upserts malloc' [] ops).
            filter (\<lambda>t. hash t = key r \<and> length t \<le> LONGEST_WORD_LEN) (map snd ops) \<noteq> []
            \<and> word r = last (filter (\<lambda>t. hash t = key r \<and> length t \<le> LONGEST_WORD_LEN)
                               (map snd ops)))"
proof -
  have g: "\<not> length token > LONGEST_WORD_LEN" using assms(1) by simp
  from assms(2) have i: "i < length results" "key (results ! i) = hash token"
    by (auto dest: HASH_FIND_INT_Some)
  have "upsert malloc results line_number token
        = results[i := update_entry (results ! i) token (sprintf_d (sint line_number))]"
    unfolding upsert_def by (rule add_result_found[OF g assms(2)])
  then show ?thesis using i assms(1) upserts_words[of malloc' ops] by simp
qed

theorem C8_witness:
  "length ''aaaaaaaaaaaaaaaaaaaaaaaaaaaaaaaaaaaaaaaaaaaaa'' \<le> LONGEST_WORD_LEN
   \<and> HASH_FIND_INT [\<lparr>key = hash ''epsihys'', word = ''epsihys'', line_summary = '' 1''\<rparr>]
        (hash ''aaaaaaaaaaaaaaaaaaaaaaaaaaaaaaaaaaaaaaaaaaaaa'') = Some 0
   \<and> word (upsert zero_block
         [\<lparr>key = hash ''epsihys'', word = ''epsihys'', line_summary = '' 1''\<rparr>] 2
         ''aaaaaaaaaaaaaaaaaaaaaaaaaaaaaaaaaaaaaaaaaaaaa'' ! 0) = ''aaaaaaaaaaaaaaaaaaaaaaaaaaaaaaaaaaaaaaaaaaaaa''"
proof -
  have h1: "length ''aaaaaaaaaaaaaaaaaaaaaaaaaaaaaaaaaaaaaaaaaaaaa'' \<le> LONGEST_WORD_LEN"
    by (simp add: LONGEST_WORD_LEN_def)
  have h2: "HASH_FIND_INT [\<lparr>key = hash ''epsihys'', word = ''epsihys'', line_summary = '' 1''\<rparr>]
        (hash ''aaaaaaaaaaaaaaaaaaaaaaaaaaaaaaaaaaaaaaaaaaaaa'') = Some 0"
    by (simp add: hash_collision_45)
  have r: "word (upsert zero_block
         [\<lparr>key = hash ''epsihys'', word = ''epsihys'', line_summary = '' 1''\<rparr>] 2
         ''aaaaaaaaaaaaaaaaaaaaaaaaaaaaaaaaaaaaaaaaaaaaa'' ! 0) = ''aaaaaaaaaaaaaaaaaaaaaaaaaaaaaaaaaaaaaaaaaaaaa''"
    using C8_word_overwritten [OF h1 h2, of zero_block 2 zero_block "[]"] by (rule conjunct1)
  show ?thesis using h1 h2 r by (intro conjI)
qed

text \<open>
  C9, as stated, fails on a line that holds a NUL byte: the scan stops at the first NUL,
  so that byte and all bytes after it stay as they are, where the specification's
  normalizer turns them into spaces.
\<close>

theorem C9_counterexample:
  "scan_line [NUL, CHR ''1'', newline] = [NUL, CHR ''1'', newline]
   \<and> spec_normalize [NUL, CHR ''1'', newline] = [space, space, space]"
  by (simp add: NUL_def newline_def space_def apostrophe_def spec_normalize_def spec_byte_def)

text \<open>
  C9, amended. The scan maps each byte before the first NUL of the line as the
  specification's normalizer does (alphabetic bytes to lowercase, the apostrophe to
  itself, every other byte to a space), leaves the first NUL and the bytes after it
  unchanged, and keeps the byte count of the line.
\<close>

theorem C9_scan_line_normalizes:
  "scan_line line = spec_normalize (cstr line) @ drop (length (cstr line)) line
   \<and> length (scan_line line) = length line"
proof -
  have l: "length (cstr line) \<le> length line"
    unfolding cstr_def by (rule length_takeWhile_le)
  show ?thesis
    using l by (simp add: scan_line_cstr[of line] spec_normalize_def scan_char_spec)
qed



end
